theory Spec2Isabelle
  imports Main "HOL-Library.Word"
begin

unbundle bit_operations_syntax

section \<open>Modular arithmetic of the ElGamal client\<close>

text \<open>
  The source works on \<^verbatim>\<open>uint64_t\<close> values and widens to \<^verbatim>\<open>__uint128_t\<close> inside
  \<^verbatim>\<open>mod_mul\<close>. Both are modelled as words of that width. The \<^verbatim>\<open>%\<close> operator of
  C++ has no defined result for a zero divisor, so every function that divides returns
  an option: \<open>None\<close> stands for the undefined division by zero.
\<close>

type_synonym u64 = "64 word"
type_synonym u128 = "128 word"

text \<open>
  The signed types \<^verbatim>\<open>int\<close> and \<^verbatim>\<open>int64_t\<close> are words of the same width that are
  read with \<open>sint\<close> and compared with \<open>\<le>s\<close>.
\<close>

type_synonym i32 = "32 word"
type_synonym i64 = "64 word"

text \<open>The subexpression \<^verbatim>\<open>static_cast<__uint128_t>(a) * b\<close> of \<^verbatim>\<open>mod_mul\<close>.\<close>

definition wide_product :: "u64 \<Rightarrow> u64 \<Rightarrow> u128" where
  "wide_product a b = (ucast a :: u128) * (ucast b :: u128)"

text \<open>
  \<^verbatim>\<open>return static_cast<uint64_t>((static_cast<__uint128_t>(a) * b) % mod);\<close>
\<close>

definition mod_mul :: "u64 \<Rightarrow> u64 \<Rightarrow> u64 \<Rightarrow> u64 option" where
  "mod_mul a b m =
     (if m = 0 then None
      else Some (ucast (wide_product a b mod (ucast m :: u128)) :: u64))"

text \<open>
  The \<^verbatim>\<open>while (exp > 0)\<close> loop of \<^verbatim>\<open>mod_pow\<close>, with the loop variables
  \<^verbatim>\<open>result\<close>, \<^verbatim>\<open>base\<close> and \<^verbatim>\<open>exp\<close> as arguments.
\<close>

function mod_pow_loop :: "u64 \<Rightarrow> u64 \<Rightarrow> u64 \<Rightarrow> u64 \<Rightarrow> u64 option" where
  "mod_pow_loop result base exp m =
     (if exp > 0 then
        (case (if exp AND 1 \<noteq> 0 then mod_mul result base m else Some result) of
           None \<Rightarrow> None
         | Some result' \<Rightarrow>
             (case mod_mul base base m of
                None \<Rightarrow> None
              | Some base' \<Rightarrow> mod_pow_loop result' base' (drop_bit 1 exp) m))
      else Some result)"
  by pat_completeness auto
termination
proof (relation "measure (\<lambda>(result, base, exp, m). unat exp)")
  show "wf (measure (\<lambda>(result, base, exp, m). unat exp))"
    by simp
next
  fix result base exp m :: u64 and result' base' :: u64
  assume "0 < exp"
  then have "unat exp \<noteq> 0"
    by (simp add: unat_eq_0 word_greater_zero_iff)
  then have "unat exp div 2 < unat exp"
    by simp
  then show "((result', base', drop_bit 1 exp, m), (result, base, exp, m))
      \<in> measure (\<lambda>(result, base, exp, m). unat exp)"
    by (simp add: unat_drop_bit_eq drop_bit_eq_div unat_div)
qed

declare mod_pow_loop.simps [simp del]

text \<open>
  \<^verbatim>\<open>uint64_t result = 1 % mod; base %= mod;\<close> followed by the loop.
\<close>

definition mod_pow :: "u64 \<Rightarrow> u64 \<Rightarrow> u64 \<Rightarrow> u64 option" where
  "mod_pow base exp m =
     (if m = 0 then None
      else mod_pow_loop (1 mod m) (base mod m) exp m)"

text \<open>
  The two lines of the response callback that recover the plaintext:
  \<^verbatim>\<open>const uint64_t exponent = p - 1 - n;\<close> and
  \<^verbatim>\<open>const uint64_t x = mod_mul(y2, mod_pow(y1, exponent, p), p);\<close>.
  Unsigned subtraction wraps, as \<open>-\<close> on words does.
\<close>

definition recover :: "u64 \<Rightarrow> u64 \<Rightarrow> u64 \<Rightarrow> u64 \<Rightarrow> u64 option" where
  "recover y1 y2 p n =
     (let exponent = p - 1 - n in
      case mod_pow y1 exponent p of
        None \<Rightarrow> None
      | Some t \<Rightarrow> mod_mul y2 t p)"

section \<open>The client node and its two handlers\<close>

text \<open>
  The mutable members of \<^verbatim>\<open>ElGamalClient\<close>: \<^verbatim>\<open>waiting_service_\<close>,
  \<^verbatim>\<open>finished_\<close> and \<^verbatim>\<open>round_\<close>, the last one a 32-bit signed \<^verbatim>\<open>int\<close>.
  The random engine \<^verbatim>\<open>rng_\<close> is not modelled as a member: the value it yields is
  an argument of \<open>on_params\<close>. Logging is left out.
\<close>

record client =
  waiting_service :: bool
  finished :: bool
  round :: i32

definition kTotalRounds :: i32 where
  "kTotalRounds = 5"

text \<open>The largest \<^verbatim>\<open>int\<close>; incrementing it is undefined in C++.\<close>

definition INT_MAX :: i32 where
  "INT_MAX = 2147483647"

text \<open>The fields of \<^verbatim>\<open>rm_server::msg::GetElGamalParams\<close> that the handler reads.\<close>

record params_msg =
  msg_p :: u64
  msg_a :: u64

text \<open>
  What a handler does to the outside: \<open>SendRequest b p n\<close> is
  \<^verbatim>\<open>async_send_request\<close> with \<^verbatim>\<open>request->public_key = b\<close> and a callback that
  captured \<open>p\<close> and \<open>n\<close>; \<open>Publish x\<close> is \<^verbatim>\<open>result_pub_->publish\<close> of a
  message whose \<^verbatim>\<open>data\<close> is \<open>x\<close>. The cast \<^verbatim>\<open>static_cast<int64_t>(x)\<close> keeps the
  64 bits as they are.
\<close>

datatype effect = SendRequest u64 u64 u64 | Publish i64

text \<open>
  The shared future handed to the callback: \<^verbatim>\<open>future.get()\<close> either yields a
  response with \<open>y1\<close> and \<open>y2\<close> or throws.
\<close>

datatype future = Ready u64 u64 | Throws

text \<open>
  \<^verbatim>\<open>on_params\<close>. The argument \<open>n\<close> is the value of \<^verbatim>\<open>dist(rng_)\<close> and
  \<open>available\<close> the value of \<^verbatim>\<open>wait_for_service(1s)\<close>; both are only looked at on
  the paths where the source evaluates them. \<open>None\<close> is undefined behaviour.
\<close>

definition on_params :: "client \<Rightarrow> params_msg \<Rightarrow> u64 \<Rightarrow> bool \<Rightarrow> (client \<times> effect list) option" where
  "on_params c msg n available =
     (if finished c \<or> waiting_service c then Some (c, [])
      else if kTotalRounds \<le>s round c then Some (c\<lparr>finished := True\<rparr>, [])
      else
        let p = msg_p msg; a = msg_a msg in
        if p < 3 then Some (c, [])
        else
          (case mod_pow a n p of
             None \<Rightarrow> None
           | Some b \<Rightarrow>
               if \<not> available then Some (c, [])
               else Some (c\<lparr>waiting_service := True\<rparr>, [SendRequest b p n])))"

text \<open>
  The lambda passed to \<^verbatim>\<open>async_send_request\<close>, with its captures \<open>p\<close> and \<open>n\<close>
  as arguments. The \<^verbatim>\<open>catch\<close> branch is the \<open>Throws\<close> case. \<open>None\<close> is undefined
  behaviour: a division by zero inside \<open>recover\<close>, or \<^verbatim>\<open>++round_\<close> at \<open>INT_MAX\<close>.
\<close>

definition response_callback :: "client \<Rightarrow> u64 \<Rightarrow> u64 \<Rightarrow> future \<Rightarrow> (client \<times> effect list) option" where
  "response_callback c p n fut =
     (case fut of
        Throws \<Rightarrow> Some (c\<lparr>waiting_service := False\<rparr>, [])
      | Ready y1 y2 \<Rightarrow>
          (case recover y1 y2 p n of
             None \<Rightarrow> None
           | Some x \<Rightarrow>
               if round c = INT_MAX then None
               else
                 let c1 = c\<lparr>round := round c + 1, waiting_service := False\<rparr> in
                 Some (if kTotalRounds \<le>s round c1 then c1\<lparr>finished := True\<rparr> else c1,
                       [Publish x])))"

section \<open>The node together with the requests in flight\<close>

text \<open>
  The ROS client keeps the callback of every request that has been sent and not yet
  answered. A callback is determined by its captures \<open>(p, n)\<close>, so the system state is
  the node plus the list of captured pairs.
\<close>

record system =
  node :: client
  inflight :: "(u64 \<times> u64) list"

text \<open>The constructor's member initialisers; no request has been sent.\<close>

definition initial :: system where
  "initial = \<lparr>node = \<lparr>waiting_service = False, finished = False, round = 0\<rparr>, inflight = []\<rparr>"

datatype event = ParamEvent params_msg u64 bool | ResponseEvent nat future

text \<open>The callbacks registered by the requests among some effects.\<close>

fun requests :: "effect list \<Rightarrow> (u64 \<times> u64) list" where
  "requests [] = []"
| "requests (SendRequest b p n # es) = (p, n) # requests es"
| "requests (Publish x # es) = requests es"

text \<open>
  Which events can happen: \<^verbatim>\<open>uniform_int_distribution<uint64_t>(1, p - 2)\<close> yields a
  value between its bounds, and a response can only arrive for a request in flight.
\<close>

definition enabled :: "system \<Rightarrow> event \<Rightarrow> bool" where
  "enabled S ev =
     (case ev of
        ParamEvent msg n available \<Rightarrow> 3 \<le> msg_p msg \<longrightarrow> 1 \<le> n \<and> n \<le> msg_p msg - 2
      | ResponseEvent i fut \<Rightarrow> i < length (inflight S))"

text \<open>
  One invocation by the executor: the subscription callback, or the callback of the
  \<open>i\<close>-th request in flight, which is then no longer in flight.
\<close>

definition fire :: "system \<Rightarrow> event \<Rightarrow> (system \<times> effect list) option" where
  "fire S ev =
     (case ev of
        ParamEvent msg n available \<Rightarrow>
          (case on_params (node S) msg n available of
             None \<Rightarrow> None
           | Some (c, out) \<Rightarrow> Some (\<lparr>node = c, inflight = inflight S @ requests out\<rparr>, out))
      | ResponseEvent i fut \<Rightarrow>
          if i < length (inflight S) then
            (case inflight S ! i of
               (p, n) \<Rightarrow>
                 (case response_callback (node S) p n fut of
                    None \<Rightarrow> None
                  | Some (c, out) \<Rightarrow>
                      Some (\<lparr>node = c,
                             inflight = take i (inflight S) @ drop (Suc i) (inflight S)\<rparr>, out)))
          else None)"

text \<open>
  A sequence of invocations, one after the other, with the effects in order. \<open>None\<close>
  when an event is not enabled or a handler has no defined behaviour.
\<close>

fun run :: "system \<Rightarrow> event list \<Rightarrow> (system \<times> effect list) option" where
  "run S [] = Some (S, [])"
| "run S (ev # evs) =
     (if enabled S ev then
        (case fire S ev of
           None \<Rightarrow> None
         | Some (S', out) \<Rightarrow>
             (case run S' evs of
                None \<Rightarrow> None
              | Some (S'', outs) \<Rightarrow> Some (S'', out @ outs)))
      else None)"

section \<open>Number-theoretic vocabulary of the round-trip law\<close>

text \<open>
  Primality by trial division, and generators of the multiplicative group modulo \<open>p\<close>:
  every residue from \<open>1\<close> to \<open>p - 1\<close> is a power of \<open>a\<close>.
\<close>

definition is_prime :: "nat \<Rightarrow> bool" where
  "is_prime p = (1 < p \<and> (\<forall>d\<in>{2..<p}. \<not> d dvd p))"

definition is_generator :: "nat \<Rightarrow> nat \<Rightarrow> bool" where
  "is_generator a p = (\<forall>x\<in>{1..<p}. \<exists>i\<in>{0..<p - 1}. a ^ i mod p = x)"

section \<open>The invariant of the reachable states\<close>

text \<open>
  The round counter stays between 0 and 5; the node is finished exactly when the
  counter is 5; while it waits, it is not finished, rounds remain, and exactly one
  request is in flight, whose captures passed the check on \<open>p\<close> and the draw of \<open>n\<close>;
  otherwise nothing is in flight.
\<close>

definition consistent :: "system \<Rightarrow> bool" where
  "consistent S =
     (0 \<le> sint (round (node S)) \<and> sint (round (node S)) \<le> 5 \<and>
      (finished (node S) = (round (node S) = kTotalRounds)) \<and>
      (if waiting_service (node S)
       then \<not> finished (node S) \<and>
            (\<exists>p n. inflight S = [(p, n)] \<and> 3 \<le> p \<and> 1 \<le> n \<and> n \<le> p - 2)
       else inflight S = []))"

section \<open>A run of five rounds\<close>

text \<open>
  The scenario of the specification (\<open>p = 23\<close>, \<open>a = 5\<close>, \<open>n = 6\<close>, response
  \<open>(10, 21)\<close>) repeated until the node is finished, with one failed response in the
  third round, retried with \<open>n = 9\<close>; and the state in which that run ends.
\<close>

definition five_rounds :: "event list" where
  "five_rounds =
     [ParamEvent \<lparr>msg_p = 23, msg_a = 5\<rparr> 6 True, ResponseEvent 0 (Ready 10 21),
      ParamEvent \<lparr>msg_p = 23, msg_a = 5\<rparr> 6 True, ResponseEvent 0 (Ready 10 21),
      ParamEvent \<lparr>msg_p = 23, msg_a = 5\<rparr> 6 True, ResponseEvent 0 Throws,
      ParamEvent \<lparr>msg_p = 23, msg_a = 5\<rparr> 9 True, ResponseEvent 0 (Ready 10 21),
      ParamEvent \<lparr>msg_p = 23, msg_a = 5\<rparr> 6 True, ResponseEvent 0 (Ready 10 21),
      ParamEvent \<lparr>msg_p = 23, msg_a = 5\<rparr> 6 True, ResponseEvent 0 (Ready 10 21)]"

definition done_state :: system where
  "done_state = \<lparr>node = \<lparr>waiting_service = False, finished = True, round = 5\<rparr>, inflight = []\<rparr>"

section \<open>Facts about the modular arithmetic\<close>


lemma unat_ucast_wide: "unat (ucast (x :: u64) :: u128) = unat x"
proof -
  have "unat x < 2 ^ 64"
    using unsigned_less [of x] by simp
  then have "unat x < 2 ^ 128"
    by simp
  then show ?thesis
    by (simp add: unsigned_ucast_eq take_bit_nat_eq_self)
qed

lemma unat_wide_product: "unat (wide_product a b) = unat a * unat b"
proof -
  have "unat a < 2 ^ 64" "unat b < 2 ^ 64"
    using unsigned_less [of a] unsigned_less [of b] by simp_all
  then have "unat a * unat b < 2 ^ 64 * 2 ^ 64"
    by (rule mult_strict_mono') simp_all
  then have "unat a * unat b < 2 ^ 128" by simp
  then show ?thesis
    by (simp add: wide_product_def unat_word_ariths unat_ucast_wide)
qed

lemma unat_wide_mod:
  "m \<noteq> 0 \<Longrightarrow> unat (wide_product a b mod (ucast (m::u64) :: u128)) = unat a * unat b mod unat m"
  by (simp add: unat_mod unat_wide_product unat_ucast_wide)

lemma wide_mod_less:
  assumes "m \<noteq> 0"
  shows "unat (wide_product a b mod (ucast (m::u64) :: u128)) < unat m"
proof -
 have "unat m \<noteq> 0" using assms by (simp add: unat_eq_0)
 then show ?thesis by (simp add: unat_wide_mod assms)
qed

lemma mod_mul_Some:
  assumes "m \<noteq> 0"
  shows "\<exists>z. mod_mul a b m = Some z \<and> unat z = unat a * unat b mod unat m"
proof -
  let ?w = "wide_product a b mod (ucast m :: u128)"
  have "unat ?w < unat m" using assms by (rule wide_mod_less)
  also have "unat m < 2 ^ 64" using unsigned_less [of m] by simp
  finally have "unat ?w < 2 ^ 64" .
  then have "unat (ucast ?w :: u64) = unat ?w"
    by (simp add: unsigned_ucast_eq take_bit_nat_eq_self)
  then show ?thesis using assms by (simp add: mod_mul_def unat_wide_mod)
qed


lemma and_one_odd: "(e AND 1 \<noteq> 0) = odd (unat e)" for e :: u64
proof -
  have "(e AND 1 \<noteq> 0) = (unat e mod 2 = 1)"
    by (simp add: and_one_eq word_eq_iff_unsigned [where ?'a = nat] unat_mod)
  also have "\<dots> = odd (unat e)"
    by presburger
  finally show ?thesis .
qed

lemma unat_half: "unat (drop_bit 1 e) = unat e div 2" for e :: u64
  by (simp add: unat_drop_bit_eq drop_bit_eq_div unat_div)

lemma pow_step_even:
  "even e \<Longrightarrow> (r * (b * b mod m) ^ (e div 2)) mod m = (r * b ^ e) mod (m::nat)"
proof -
  assume "even e"
  then obtain h where h: "e = 2 * h" by (auto elim: evenE)
  have "(r * (b * b mod m) ^ h) mod m = (r * ((b * b mod m) ^ h mod m)) mod m"
    by (simp add: mod_mult_right_eq)
  also have "(b * b mod m) ^ h mod m = (b * b) ^ h mod m"
    by (simp add: power_mod)
  also have "(b * b) ^ h = b ^ (2 * h)"
    by (simp add: power_mult power2_eq_square)
  finally show ?thesis
    by (simp add: h mod_mult_right_eq)
qed

lemma pow_step_odd:
  "odd e \<Longrightarrow> ((r * b mod m) * (b * b mod m) ^ (e div 2)) mod m = (r * b ^ e) mod (m::nat)"
proof -
  assume "odd e"
  then obtain h where h: "e = 2 * h + 1" by (auto elim: oddE)
  have "((r * b mod m) * (b * b mod m) ^ h) mod m = ((r * b) * (b * b mod m) ^ h) mod m"
    by (simp add: mod_mult_left_eq)
  also have "\<dots> = ((r * b) * b ^ (2 * h)) mod m"
    using pow_step_even [of "2 * h" "r * b" b m] by simp
  finally show ?thesis
    by (simp add: h mult.assoc)
qed

lemma mod_pow_loop_correct:
  "m \<noteq> 0 \<Longrightarrow> unat r < unat m \<Longrightarrow>
   \<exists>z. mod_pow_loop r b e m = Some z \<and> unat z = (unat r * unat b ^ unat e) mod unat m"
proof (induction r b e m rule: mod_pow_loop.induct)
  case (1 result base exp m)
  show ?case
  proof (cases "exp = 0")
    case True
    with "1.prems" show ?thesis
      by (simp add: mod_pow_loop.simps)
  next
    case False
    then have pos: "0 < exp"
      by (simp add: word_greater_zero_iff)
    from "1.prems" obtain base' where
      sq: "mod_mul base base m = Some base'" "unat base' = unat base * unat base mod unat m"
      using mod_mul_Some [of m base base] by blast
    from "1.prems" obtain prod where
      pr: "mod_mul result base m = Some prod" "unat prod = unat result * unat base mod unat m"
      using mod_mul_Some [of m result base] by blast
    have mpos: "0 < unat m"
      using "1.prems" by (simp add: unat_gt_0)
    show ?thesis
    proof (cases "odd (unat exp)")
      case True
      then have sel: "(if exp AND 1 \<noteq> 0 then mod_mul result base m else Some result) = Some prod"
        by (simp add: and_one_odd pr)
      have "unat prod < unat m"
        using mpos by (simp add: pr)
      with "1.IH" [OF pos sel sq(1) "1.prems"(1)] obtain z where
        z: "mod_pow_loop prod base' (drop_bit 1 exp) m = Some z"
           "unat z = (unat prod * unat base' ^ unat (drop_bit 1 exp)) mod unat m"
        by blast
      have "mod_pow_loop result base exp m = Some z"
        using pos sel sq(1) z(1) by (subst mod_pow_loop.simps) simp
      moreover have "unat z = (unat result * unat base ^ unat exp) mod unat m"
        using pow_step_odd [OF True, of "unat result" "unat base" "unat m"]
        by (simp only: z(2) pr(2) sq(2) unat_half)
      ultimately show ?thesis by blast
    next
      case False
      then have ev: "even (unat exp)"
        by simp
      from False have sel: "(if exp AND 1 \<noteq> 0 then mod_mul result base m else Some result) = Some result"
        by (simp add: and_one_odd)
      from "1.IH" [OF pos sel sq(1) "1.prems"] obtain z where
        z: "mod_pow_loop result base' (drop_bit 1 exp) m = Some z"
           "unat z = (unat result * unat base' ^ unat (drop_bit 1 exp)) mod unat m"
        by blast
      have "mod_pow_loop result base exp m = Some z"
        using pos sel sq(1) z(1) by (subst mod_pow_loop.simps) simp
      moreover have "unat z = (unat result * unat base ^ unat exp) mod unat m"
        using pow_step_even [OF ev, of "unat result" "unat base" "unat m"]
        by (simp only: z(2) sq(2) unat_half)
      ultimately show ?thesis by blast
    qed
  qed
qed

lemma mod_pow_correct:
  assumes "m \<noteq> 0"
  shows "\<exists>z. mod_pow b e m = Some z \<and> unat z = unat b ^ unat e mod unat m"
proof -
  have mpos: "0 < unat m"
    using assms by (simp add: unat_gt_0)
  have one: "unat (1 mod m) = 1 mod unat m"
    using unat_mod_distrib [of 1 m] by (simp only: unsigned_1)
  then have "unat (1 mod m) < unat m"
    using mpos by simp
  from mod_pow_loop_correct [OF assms this, of "b mod m" e] obtain z where
    z: "mod_pow_loop (1 mod m) (b mod m) e m = Some z"
       "unat z = (unat (1 mod m) * unat (b mod m) ^ unat e) mod unat m"
    by blast
  have "unat z = ((1 mod unat m) * ((unat b mod unat m) ^ unat e)) mod unat m"
    by (simp only: z(2) unat_mod_distrib unsigned_1)
  also have "\<dots> = (1 * (unat b mod unat m) ^ unat e) mod unat m"
    by (rule mod_mult_left_eq)
  also have "\<dots> = unat b ^ unat e mod unat m"
    by (simp add: power_mod)
  finally show ?thesis
    using assms z(1) by (simp add: mod_pow_def)
qed

lemma mod_pow_zero_exp: "m \<noteq> 0 \<Longrightarrow> mod_pow b 0 m = Some (1 mod m)"
  by (simp add: mod_pow_def mod_pow_loop.simps)

section \<open>Fermat's little theorem for trial-division primes\<close>

lemma prime_divisors:
  assumes "is_prime p" "d dvd p"
  shows "d = 1 \<or> d = p"
proof (rule ccontr)
  assume no: "\<not> (d = 1 \<or> d = p)"
  from assms have "0 < p" by (simp add: is_prime_def)
  with assms(2) have "d \<le> p" "d \<noteq> 0" by (auto dest: dvd_imp_le)
  with no have "d \<in> {2..<p}" by auto
  with assms show False by (simp add: is_prime_def)
qed

lemma prime_coprime:
  assumes "is_prime p" "\<not> p dvd a"
  shows "coprime p a"
proof (rule coprimeI)
  fix c assume "c dvd p" "c dvd a"
  with prime_divisors [OF assms(1)] assms(2) show "is_unit c" by auto
qed

lemma prime_dvd_choose:
  assumes "is_prime p" "0 < k" "k < p"
  shows "p dvd (p choose k)"
proof -
  have "\<not> p dvd k"
    using assms by (auto dest: dvd_imp_le)
  then have cop: "coprime p k"
    using assms(1) by (rule prime_coprime [rotated])
  have "k * (p choose k) = p * ((p - 1) choose (k - 1))"
    using assms(2) by (rule times_binomial_minus1_eq)
  then have "p dvd k * (p choose k)"
    by simp
  with cop show ?thesis
    by (simp add: coprime_dvd_mult_right_iff)
qed

lemma fermat_succ:
  assumes "is_prime p"
  shows "(a + 1) ^ p mod p = (a ^ p + 1) mod p"
proof -
  from assms have p: "0 < p" by (simp add: is_prime_def)
  have "(a + 1) ^ p = (\<Sum>k\<le>p. (p choose k) * a ^ k)"
    using binomial [of a 1 p] by (simp add: )
  also have "{..p} = insert 0 (insert p {1..<p})"
    using p by auto
  also have "(\<Sum>k\<in>insert 0 (insert p {1..<p}). (p choose k) * a ^ k)
      = 1 + (a ^ p + (\<Sum>k\<in>{1..<p}. (p choose k) * a ^ k))"
    using p by simp
  finally have eq: "(a + 1) ^ p = (\<Sum>k\<in>{1..<p}. (p choose k) * a ^ k) + (a ^ p + 1)"
    by simp
  have "p dvd (\<Sum>k\<in>{1..<p}. (p choose k) * a ^ k)"
    by (rule dvd_sum) (simp add: prime_dvd_choose [OF assms])
  then obtain q where "(\<Sum>k\<in>{1..<p}. (p choose k) * a ^ k) = p * q"
    by (rule dvdE)
  then show ?thesis
    unfolding eq by simp
qed

lemma fermat_pow: "is_prime p \<Longrightarrow> a ^ p mod p = a mod p"
proof (induction a)
  case 0
  then have "0 < p" by (simp add: is_prime_def)
  then show ?case by (simp add: zero_power)
next
  case (Suc a)
  have "Suc a ^ p mod p = (a ^ p + 1) mod p"
    using fermat_succ [OF Suc.prems, of a] by simp
  also have "\<dots> = (a ^ p mod p + 1) mod p"
    by (simp add: mod_Suc_eq)
  also have "\<dots> = (a mod p + 1) mod p"
    by (simp only: Suc.IH [OF Suc.prems])
  also have "\<dots> = Suc a mod p"
    by (simp add: mod_Suc_eq)
  finally show ?case .
qed

lemma fermat_little:
  assumes "is_prime p" "\<not> p dvd a"
  shows "a ^ (p - 1) mod p = 1"
proof -
  from assms have p: "1 < p" by (simp add: is_prime_def)
  have cop: "coprime p a"
    using assms by (rule prime_coprime)
  have "a ^ (p - 1) \<ge> 1"
    using assms(2) by (cases "a = 0") simp_all
  define c where "c = a ^ (p - 1) - 1"
  with \<open>a ^ (p - 1) \<ge> 1\<close> have c: "a ^ (p - 1) = c + 1"
    by simp
  have "a ^ p = a * a ^ (p - 1)"
    using p by (cases p) simp_all
  then have "a ^ p = a * c + a"
    by (simp only: c) simp
  then have "(a * c + a) mod p = a mod p"
    using fermat_pow [OF assms(1), of a] by simp
  then have "p dvd a * c"
    by (simp add: mod_eq_dvd_iff_nat)
  with cop have "p dvd c"
    by (simp add: coprime_dvd_mult_right_iff)
  then have "c mod p = 0"
    by simp
  moreover have "(c + 1) mod p = (c mod p + 1) mod p"
    by (simp add: mod_Suc_eq)
  ultimately have "(c + 1) mod p = 1 mod p"
    by simp
  with p show ?thesis
    by (simp only: c) simp
qed

lemma generator_not_dvd:
  assumes "is_generator a p" "3 \<le> p"
  shows "\<not> p dvd a"
proof
  assume d: "p dvd a"
  from assms have "\<exists>i\<in>{0..<p - 1}. a ^ i mod p = 2"
    by (simp add: is_generator_def)
  then obtain i where i: "a ^ i mod p = 2" by blast
  show False
  proof (cases i)
    case 0
    with i assms(2) show False by simp
  next
    case (Suc j)
    with d have "p dvd a ^ i" by simp
    with i show False by simp
  qed
qed

section \<open>The round-trip law on natural numbers and on words\<close>

lemma elgamal_nat:
  assumes "is_prime P" "\<not> P dvd A" "N + E = P - 1" "M < P"
  shows "((M * (A ^ N mod P) ^ k mod P) * ((A ^ k mod P) ^ E mod P)) mod P = M"
proof -
  have l: "(M * (A ^ N mod P) ^ k) mod P = (M * (A ^ N) ^ k) mod P"
    by (rule mod_mult_cong) (simp_all add: power_mod)
  have r: "(A ^ k mod P) ^ E mod P = (A ^ k) ^ E mod P"
    by (rule power_mod)
  have "((M * (A ^ N mod P) ^ k mod P) * ((A ^ k mod P) ^ E mod P)) mod P
      = (M * (A ^ N) ^ k * (A ^ k) ^ E) mod P"
    by (rule mod_mult_cong) (simp_all add: l r)
  also have "M * (A ^ N) ^ k * (A ^ k) ^ E = M * A ^ (k * (N + E))"
    by (simp add: power_mult [symmetric] power_add algebra_simps)
  also have "A ^ (k * (N + E)) = (A ^ (P - 1)) ^ k"
    by (simp only: assms(3) power_mult [symmetric] mult.commute)
  also have "(M * (A ^ (P - 1)) ^ k) mod P = (M * (A ^ (P - 1) mod P) ^ k) mod P"
    by (rule mod_mult_cong) (simp_all add: power_mod)
  also have "\<dots> = M mod P"
    by (simp only: fermat_little [OF assms(1,2)]) simp
  also have "\<dots> = M"
    using assms(4) by simp
  finally show ?thesis .
qed

lemma recover_round_trip:
  fixes p a n b m y1 y2 :: u64 and k :: nat
  assumes prime: "is_prime (unat p)" and p3: "3 \<le> p"
    and nd: "\<not> unat p dvd unat a"
    and n1: "1 \<le> n" and n2: "n \<le> p - 2"
    and b: "unat b = unat a ^ unat n mod unat p"
    and m: "m < p"
    and y1: "unat y1 = unat a ^ k mod unat p"
    and y2: "unat y2 = unat m * unat b ^ k mod unat p"
  shows "recover y1 y2 p n = Some m"
proof -
  from p3 have P3: "3 \<le> unat p"
    by (simp add: word_le_nat_alt)
  then have p0: "p \<noteq> 0"
    by auto
  have "unat (p - 2) = unat p - 2"
    using P3 by (simp add: unat_sub word_le_nat_alt)
  with n2 have N2: "unat n \<le> unat p - 2"
    by (simp add: word_le_nat_alt)
  have "unat (p - 1) = unat p - 1"
    using P3 by (simp add: unat_sub word_le_nat_alt)
  with N2 have "n \<le> p - 1"
    by (simp add: word_le_nat_alt)
  then have "unat (p - 1 - n) = unat (p - 1) - unat n"
    by (rule unat_sub)
  with \<open>unat (p - 1) = unat p - 1\<close> N2 P3
  have e: "unat n + unat (p - 1 - n) = unat p - 1"
    by simp
  from mod_pow_correct [OF p0, of y1 "p - 1 - n"] obtain t where
    t: "mod_pow y1 (p - 1 - n) p = Some t"
       "unat t = unat y1 ^ unat (p - 1 - n) mod unat p"
    by blast
  from mod_mul_Some [OF p0, of y2 t] obtain z where
    z: "mod_mul y2 t p = Some z" "unat z = unat y2 * unat t mod unat p"
    by blast
  from m have M: "unat m < unat p"
    by (simp add: word_less_nat_alt)
  have "unat z = unat m"
    using elgamal_nat [OF prime nd e M, of k]
    by (simp only: z(2) t(2) y1 y2 b)
  then have "z = m"
    by (simp add: word_unat_eq_iff)
  with t(1) z(1) show ?thesis
    by (simp add: recover_def)
qed

lemma prime_23: "is_prime 23"
  unfolding is_prime_def atLeastLessThan_upt by simp

lemma generator_5_23: "is_generator 5 23"
  unfolding is_generator_def atLeastLessThan_upt by (simp add: upt_conv_Cons)

section \<open>The claims about the arithmetic\<close>

text \<open>
  Claim C3. For all 64-bit unsigned \<open>x\<close>, \<open>y\<close> and every modulus \<open>m \<ge> 1\<close>,
  \<open>mod_mul x y m\<close> returns exactly \<open>(x * y) mod m\<close>: the 128-bit product equals the
  product of the natural numbers (it does not wrap), the reduced value is below
  \<open>2 ^ 64\<close> (the cast back to 64 bits loses nothing), and the function has a result.
\<close>

theorem mod_mul_exact:
  "m \<noteq> 0 \<Longrightarrow>
     unat (wide_product x y) = unat x * unat y \<and>
     unat (wide_product x y mod (ucast m :: u128)) < 2 ^ 64 \<and>
     (\<exists>z. mod_mul x y m = Some z \<and> unat z = unat x * unat y mod unat m)"
proof (intro conjI)
  assume m: "m \<noteq> 0"
  show "unat (wide_product x y) = unat x * unat y"
    by (rule unat_wide_product)
  have "unat (wide_product x y mod (ucast m :: u128)) < unat m"
    using m by (rule wide_mod_less)
  also have "unat m < 2 ^ 64"
    using unsigned_less [of m] by simp
  finally show "unat (wide_product x y mod (ucast m :: u128)) < 2 ^ 64" .
  show "\<exists>z. mod_mul x y m = Some z \<and> unat z = unat x * unat y mod unat m"
    using m by (rule mod_mul_Some)
qed

text \<open>
  The largest operands with the modulus \<open>2 ^ 64 - 59\<close>: the product needs 128 bits,
  and \<open>2 ^ 64 - 1\<close> is 58 modulo \<open>2 ^ 64 - 59\<close>, so the result is \<open>58 * 58\<close>.
\<close>

theorem mod_mul_exact_witness:
  "(18446744073709551557 :: u64) \<noteq> 0 \<and>
   unat (wide_product 18446744073709551615 18446744073709551615)
     = 18446744073709551615 * 18446744073709551615 \<and>
   mod_mul 18446744073709551615 18446744073709551615 18446744073709551557 = Some 3364"
  using mod_mul_exact [of 18446744073709551557 18446744073709551615 18446744073709551615]
  by (simp add: mod_mul_def wide_product_def)

text \<open>
  Claim C2. For every base, every exponent and every modulus \<open>m \<ge> 1\<close>,
  \<open>mod_pow base exp m\<close> has a result, and the result is \<open>base ^ exp mod m\<close>; with
  exponent 0 the result is \<open>1 mod m\<close>, which is 0 when \<open>m = 1\<close>. (The exponent is
  unsigned, so \<open>exp \<ge> 0\<close> always holds; being a function of its three arguments,
  \<open>mod_pow\<close> is deterministic.)
\<close>

theorem mod_pow_spec:
  "m \<noteq> 0 \<Longrightarrow>
     (\<exists>z. mod_pow base exp m = Some z \<and> unat z = unat base ^ unat exp mod unat m) \<and>
     mod_pow base 0 m = Some (1 mod m) \<and>
     (m = 1 \<longrightarrow> mod_pow base 0 m = Some 0)"
proof (intro conjI impI)
  assume m: "m \<noteq> 0"
  show "\<exists>z. mod_pow base exp m = Some z \<and> unat z = unat base ^ unat exp mod unat m"
    using m by (rule mod_pow_correct)
  show "mod_pow base 0 m = Some (1 mod m)"
    using m by (rule mod_pow_zero_exp)
  show "mod_pow base 0 m = Some 0" if "m = 1"
    using that mod_pow_zero_exp [of 1 base] by simp
qed

theorem mod_pow_spec_witness:
  "(23 :: u64) \<noteq> 0 \<and> mod_pow 5 6 23 = Some 8 \<and> mod_pow 5 0 23 = Some 1 \<and>
   mod_pow 7 0 1 = Some 0"
  using mod_pow_spec [of 23 5 6] mod_pow_spec [of 1 7 0]
  by (simp add: mod_pow_def mod_pow_loop.simps mod_mul_def wide_product_def)

section \<open>The claim about decryption\<close>

text \<open>
  Claim C1. For every prime \<open>p \<ge> 3\<close>, generator \<open>a\<close> of the group modulo \<open>p\<close>, secret
  \<open>n\<close> in \<open>[1, p - 2]\<close>, contribution \<open>b = a ^ n mod p\<close>, message \<open>m\<close> in \<open>[0, p - 1]\<close>
  and ephemeral \<open>k\<close> of the encrypting side: if \<open>y1 = a ^ k mod p\<close> and
  \<open>y2 = m * b ^ k mod p\<close>, then the recovery computation of the response callback,
  \<open>mod_mul y2 (mod_pow y1 (p - 1 - n) p) p\<close>, has the result \<open>m\<close>, and the callback
  publishes \<open>m\<close> (whenever the round counter can be incremented).
\<close>

theorem recover_inverts_encryption:
  fixes p a n b m y1 y2 :: u64 and k :: nat
  assumes "is_prime (unat p)" and "3 \<le> p"
    and "is_generator (unat a) (unat p)"
    and "1 \<le> n" and "n \<le> p - 2"
    and "unat b = unat a ^ unat n mod unat p"
    and "m < p"
    and "unat y1 = unat a ^ k mod unat p"
    and "unat y2 = unat m * unat b ^ k mod unat p"
  shows "recover y1 y2 p n = Some m \<and>
    (round c \<noteq> INT_MAX \<longrightarrow>
      (\<exists>c'. response_callback c p n (Ready y1 y2) = Some (c', [Publish m])))"
proof -
  from assms(2) have "3 \<le> unat p"
    by (simp add: word_le_nat_alt)
  with assms(3) have "\<not> unat p dvd unat a"
    by (rule generator_not_dvd)
  with assms(1,2) have "recover y1 y2 p n = Some m"
    using assms(4-9) by (rule recover_round_trip)
  then show ?thesis
    by (simp add: response_callback_def Let_def)
qed

text \<open>
  The scenario of the specification: \<open>p = 23\<close>, \<open>a = 5\<close>, \<open>n = 6\<close>, so \<open>b = 8\<close>; the
  other side encrypts \<open>m = 15\<close> with \<open>k = 3\<close>, so \<open>y1 = 10\<close> and \<open>y2 = 21\<close>; the client
  recovers 15 in its first round.
\<close>

theorem recover_inverts_encryption_witness:
  "is_prime (unat (23 :: u64)) \<and> (3 :: u64) \<le> 23 \<and>
   is_generator (unat (5 :: u64)) (unat (23 :: u64)) \<and>
   (1 :: u64) \<le> 6 \<and> (6 :: u64) \<le> 23 - 2 \<and>
   unat (8 :: u64) = unat (5 :: u64) ^ unat (6 :: u64) mod unat (23 :: u64) \<and>
   (15 :: u64) < 23 \<and>
   unat (10 :: u64) = unat (5 :: u64) ^ 3 mod unat (23 :: u64) \<and>
   unat (21 :: u64) = unat (15 :: u64) * unat (8 :: u64) ^ 3 mod unat (23 :: u64) \<and>
   recover 10 21 23 6 = Some 15 \<and>
   round (node initial) \<noteq> INT_MAX \<and>
   (\<exists>c'. response_callback (node initial) 23 6 (Ready 10 21) = Some (c', [Publish 15]))"
proof -
  have h1: "is_prime (unat (23 :: u64))"
    by (simp add: prime_23)
  have h3: "is_generator (unat (5 :: u64)) (unat (23 :: u64))"
    by (simp add: generator_5_23)
  have h6: "unat (8 :: u64) = unat (5 :: u64) ^ unat (6 :: u64) mod unat (23 :: u64)"
    by simp
  have h8: "unat (10 :: u64) = unat (5 :: u64) ^ 3 mod unat (23 :: u64)"
    by simp
  have h9: "unat (21 :: u64) = unat (15 :: u64) * unat (8 :: u64) ^ 3 mod unat (23 :: u64)"
    by simp
  have r: "round (node initial) \<noteq> INT_MAX"
    by (simp add: initial_def INT_MAX_def)
  have "recover 10 21 23 6 = Some 15 \<and>
    (round (node initial) \<noteq> INT_MAX \<longrightarrow>
      (\<exists>c'. response_callback (node initial) 23 6 (Ready 10 21) = Some (c', [Publish 15])))"
    using h1 _ h3 _ _ h6 _ h8 h9 by (rule recover_inverts_encryption) simp_all
  with h1 h3 h6 h8 h9 r show ?thesis
    by simp
qed

section \<open>Facts about the handlers and the invariant\<close>

lemma sint_succ:
  fixes x :: i32
  assumes "x \<noteq> INT_MAX"
  shows "sint (x + 1) = sint x + 1"
proof -
  have "sint x \<noteq> sint INT_MAX"
    using assms by (simp add: word_eq_iff_signed [where ?'a = int])
  then have ne: "sint x \<noteq> 2147483647"
    by (simp add: INT_MAX_def)
  have lt: "sint x < 2147483648"
    using sint_lt [of x] by simp
  have ge: "- 2147483648 \<le> sint x"
    using sint_ge [of x] by simp
  have "sint (x + 1) = signed_take_bit 31 (sint x + 1)"
    by (simp add: sint_word_add)
  also have "\<dots> = sint x + 1"
    using ne lt ge by (intro signed_take_bit_int_eq_self) simp_all
  finally show ?thesis .
qed

lemma sint_five: "(x = kTotalRounds) = (sint x = 5)" for x :: i32
  by (simp add: kTotalRounds_def word_eq_iff_signed [where ?'a = int])

lemma total_rounds_le: "(kTotalRounds \<le>s x) = (5 \<le> sint x)" for x :: i32
  by (simp add: kTotalRounds_def word_sle_eq)


lemma on_params_defined:
  "\<exists>c' out. on_params c msg n available = Some (c', out)"
proof (cases "msg_p msg = 0")
  case True
  then show ?thesis by (simp add: on_params_def Let_def)
next
  case False
  from mod_pow_correct [OF this, of "msg_a msg" n] obtain b where
    "mod_pow (msg_a msg) n (msg_p msg) = Some b" by blast
  then show ?thesis by (simp add: on_params_def Let_def)
qed

lemma on_params_cases:
  assumes "on_params c msg n available = Some (c', out)"
  shows "(c' = c \<and> out = []) \<or>
         (\<not> finished c \<and> \<not> waiting_service c \<and> kTotalRounds \<le>s round c \<and>
            c' = c\<lparr>finished := True\<rparr> \<and> out = []) \<or>
         (\<not> finished c \<and> \<not> waiting_service c \<and> \<not> kTotalRounds \<le>s round c \<and>
            3 \<le> msg_p msg \<and> available \<and>
            c' = c\<lparr>waiting_service := True\<rparr> \<and>
            (\<exists>b. out = [SendRequest b (msg_p msg) n]))"
  using assms
  by (auto simp: on_params_def Let_def not_less split: if_splits option.splits)

lemma on_params_blocked:
  "finished c \<or> waiting_service c \<Longrightarrow> on_params c msg n available = Some (c, [])"
  by (simp add: on_params_def)

lemma response_callback_cases:
  assumes "response_callback c p n fut = Some (c', out)"
  shows "(fut = Throws \<and> c' = c\<lparr>waiting_service := False\<rparr> \<and> out = []) \<or>
         (\<exists>y1 y2 x. fut = Ready y1 y2 \<and> recover y1 y2 p n = Some x \<and> round c \<noteq> INT_MAX \<and>
            out = [Publish x] \<and>
            c' = (if kTotalRounds \<le>s round c + 1
                  then c\<lparr>round := round c + 1, waiting_service := False, finished := True\<rparr>
                  else c\<lparr>round := round c + 1, waiting_service := False\<rparr>))"
  using assms
  by (cases fut) (auto simp: response_callback_def Let_def split: if_splits option.splits)

lemma recover_defined:
  assumes "p \<noteq> 0"
  shows "\<exists>x. recover y1 y2 p n = Some x"
proof -
  from mod_pow_correct [OF assms, of y1 "p - 1 - n"] obtain t where
    "mod_pow y1 (p - 1 - n) p = Some t" by blast
  moreover from mod_mul_Some [OF assms, of y2 t] obtain z where
    "mod_mul y2 t p = Some z" by blast
  ultimately show ?thesis by (simp add: recover_def)
qed

lemma consistent_initial: "consistent initial"
  by (simp add: consistent_def initial_def kTotalRounds_def)

lemma consistent_fire:
  assumes inv: "consistent S" and en: "enabled S ev" and f: "fire S ev = Some (S', out)"
  shows "consistent S'"
proof (cases ev)
  case (ParamEvent msg n available)
  with f obtain c' where
    op: "on_params (node S) msg n available = Some (c', out)"
    and S': "S' = \<lparr>node = c', inflight = inflight S @ requests out\<rparr>"
    by (auto simp: fire_def split: option.splits)
  from on_params_cases [OF op] show ?thesis
  proof (elim disjE conjE exE)
    assume "c' = node S" "out = []"
    with S' have "S' = S" by simp
    with inv show ?thesis by simp
  next
    assume "\<not> finished (node S)" "kTotalRounds \<le>s round (node S)"
    with inv have False
      by (auto simp: consistent_def sint_five total_rounds_le)
    then show ?thesis ..
  next
    fix b
    assume a: "\<not> finished (node S)" "\<not> waiting_service (node S)" "3 \<le> msg_p msg"
      "c' = (node S)\<lparr>waiting_service := True\<rparr>" "out = [SendRequest b (msg_p msg) n]"
    from en ParamEvent a(3) have "1 \<le> n \<and> n \<le> msg_p msg - 2"
      by (simp add: enabled_def)
    with a S' inv show ?thesis
      by (simp add: consistent_def)
  qed
next
  case (ResponseEvent i fut)
  with en have i: "i < length (inflight S)"
    by (simp add: enabled_def)
  with inv obtain p n where
    w: "waiting_service (node S)" "\<not> finished (node S)" "inflight S = [(p, n)]" "i = 0"
    by (auto simp: consistent_def split: if_splits)
  from inv w have r: "0 \<le> sint (round (node S))" "sint (round (node S)) < 5"
    by (auto simp: consistent_def sint_five)
  from f ResponseEvent w obtain c' where
    rc: "response_callback (node S) p n fut = Some (c', out)"
    and S': "S' = \<lparr>node = c', inflight = []\<rparr>"
    by (auto simp: fire_def split: option.splits)
  from response_callback_cases [OF rc] show ?thesis
  proof (elim disjE conjE exE)
    assume "c' = (node S)\<lparr>waiting_service := False\<rparr>"
    with S' inv w show ?thesis by (simp add: consistent_def)
  next
    fix y1 y2 x
    assume nm: "round (node S) \<noteq> INT_MAX"
      and c': "c' = (if kTotalRounds \<le>s round (node S) + 1
          then (node S)\<lparr>round := round (node S) + 1, waiting_service := False, finished := True\<rparr>
          else (node S)\<lparr>round := round (node S) + 1, waiting_service := False\<rparr>)"
    have s: "sint (round (node S) + 1) = sint (round (node S)) + 1"
      using nm by (rule sint_succ)
    show ?thesis
      using r w(2) by (auto simp: S' c' consistent_def sint_five total_rounds_le s)
  qed
qed

lemma consistent_run:
  "consistent S \<Longrightarrow> run S evs = Some (S', outs) \<Longrightarrow> consistent S'"
proof (induction evs arbitrary: S outs)
  case Nil
  then show ?case by simp
next
  case (Cons ev evs)
  from Cons.prems(2) obtain T out outs' where
    st: "enabled S ev" "fire S ev = Some (T, out)" "run T evs = Some (S', outs')"
    by (auto split: if_splits option.splits)
  from Cons.prems(1) st(1,2) have "consistent T"
    by (rule consistent_fire)
  then show ?case
    using st(3) by (rule Cons.IH)
qed

lemma fire_defined:
  assumes inv: "consistent S" and en: "enabled S ev"
  shows "\<exists>S' out. fire S ev = Some (S', out)"
proof (cases ev)
  case (ParamEvent msg n available)
  with on_params_defined [of "node S" msg n available] show ?thesis
    by (auto simp: fire_def)
next
  case (ResponseEvent i fut)
  with en have i: "i < length (inflight S)"
    by (simp add: enabled_def)
  with inv obtain p n where
    w: "waiting_service (node S)" "\<not> finished (node S)" "inflight S = [(p, n)]" "i = 0"
      "3 \<le> p"
    by (auto simp: consistent_def split: if_splits)
  from inv w have "sint (round (node S)) < 5"
    by (auto simp: consistent_def sint_five)
  then have nm: "round (node S) \<noteq> INT_MAX"
    by (auto simp: INT_MAX_def)
  from w(5) have "p \<noteq> 0" by auto
  show ?thesis
  proof (cases fut)
    case (Ready y1 y2)
    from \<open>p \<noteq> 0\<close> obtain x where "recover y1 y2 p n = Some x"
      using recover_defined by blast
    with nm w ResponseEvent Ready show ?thesis
      by (simp add: fire_def response_callback_def Let_def)
  next
    case Throws
    with w ResponseEvent show ?thesis
      by (simp add: fire_def response_callback_def)
  qed
qed

lemma finished_fire:
  assumes inv: "consistent S" and fin: "finished (node S)"
    and en: "enabled S ev" and f: "fire S ev = Some (S', out)"
  shows "S' = S \<and> out = []"
proof (cases ev)
  case (ParamEvent msg n available)
  from inv fin have "inflight S = []"
    by (auto simp: consistent_def split: if_splits)
  with f ParamEvent fin have "S' = \<lparr>node = node S, inflight = inflight S\<rparr> \<and> out = []"
    by (auto simp: fire_def on_params_blocked)
  then show ?thesis
    by simp
next
  case (ResponseEvent i fut)
  from inv fin have "inflight S = []"
    by (auto simp: consistent_def split: if_splits)
  with en ResponseEvent show ?thesis
    by (simp add: enabled_def)
qed

lemma finished_run:
  "consistent S \<Longrightarrow> finished (node S) \<Longrightarrow> run S evs = Some (S', outs) \<Longrightarrow> S' = S \<and> outs = []"
proof (induction evs arbitrary: outs)
  case Nil
  then show ?case by simp
next
  case (Cons ev evs)
  from Cons.prems(3) obtain T out outs' where
    st: "enabled S ev" "fire S ev = Some (T, out)" "run T evs = Some (S', outs')"
      "outs = out @ outs'"
    by (auto split: if_splits option.splits)
  from Cons.prems(1,2) st(1,2) have "T = S \<and> out = []"
    by (rule finished_fire)
  with Cons.IH [OF Cons.prems(1,2), of outs'] st show ?case
    by simp
qed

section \<open>Evaluating the scenario\<close>

lemmas eval_defs = fire_def enabled_def on_params_def response_callback_def recover_def
  mod_pow_def mod_pow_loop.simps mod_mul_def wide_product_def kTotalRounds_def INT_MAX_def
  initial_def Let_def word_sle_eq

lemma first_response:
  "fire \<lparr>node = \<lparr>waiting_service = True, finished = False, round = 0\<rparr>, inflight = [(23, 6)]\<rparr>
        (ResponseEvent 0 (Ready 10 21))
   = Some (\<lparr>node = \<lparr>waiting_service = False, finished = False, round = 1\<rparr>, inflight = []\<rparr>,
           [Publish 15])"
  by (simp add: eval_defs)

lemma run_first_request:
  "run initial [ParamEvent \<lparr>msg_p = 23, msg_a = 5\<rparr> 6 True]
     = Some (\<lparr>node = \<lparr>waiting_service = True, finished = False, round = 0\<rparr>,
              inflight = [(23, 6)]\<rparr>, [SendRequest 8 23 6])"
  by (simp add: eval_defs)

lemma run_five_rounds:
  "run initial five_rounds = Some (done_state,
     [SendRequest 8 23 6, Publish 15, SendRequest 8 23 6, Publish 15, SendRequest 8 23 6,
      SendRequest 11 23 9, Publish 16, SendRequest 8 23 6, Publish 15, SendRequest 8 23 6, Publish 15])"
  by (simp add: five_rounds_def done_state_def eval_defs)

section \<open>The claims about the round state machine\<close>

text \<open>
  Claim C4. In every state with \<open>waiting_service\<close> set, processing any parameter event
  issues no request and leaves the round state as it is: the handler returns the node
  unchanged with no effects, and so the whole system state, the requests in flight
  included, is unchanged.
\<close>

theorem params_ignored_while_waiting:
  "waiting_service (node S) \<Longrightarrow>
     on_params (node S) msg n available = Some (node S, []) \<and>
     fire S (ParamEvent msg n available) = Some (S, [])"
  by (simp add: fire_def on_params_blocked)

theorem params_ignored_while_waiting_witness:
  "waiting_service (node \<lparr>node = \<lparr>waiting_service = True, finished = False, round = 2\<rparr>,
                          inflight = [(23, 6)]\<rparr>) \<and>
   fire \<lparr>node = \<lparr>waiting_service = True, finished = False, round = 2\<rparr>, inflight = [(23, 6)]\<rparr>
        (ParamEvent \<lparr>msg_p = 23, msg_a = 5\<rparr> 7 True)
     = Some (\<lparr>node = \<lparr>waiting_service = True, finished = False, round = 2\<rparr>,
              inflight = [(23, 6)]\<rparr>, [])"
  using params_ignored_while_waiting
    [of "\<lparr>node = \<lparr>waiting_service = True, finished = False, round = 2\<rparr>, inflight = [(23, 6)]\<rparr>"
        "\<lparr>msg_p = 23, msg_a = 5\<rparr>" 7 True]
  by simp

text \<open>
  Claim C5. In every state with \<open>finished\<close> set, processing any parameter event leaves
  \<open>round\<close>, \<open>waiting_service\<close> and \<open>finished\<close> unchanged and publishes nothing.
\<close>

theorem params_ignored_when_finished:
  "finished (node S) \<Longrightarrow>
     on_params (node S) msg n available = Some (node S, []) \<and>
     fire S (ParamEvent msg n available) = Some (S, [])"
  by (simp add: fire_def on_params_blocked)

theorem params_ignored_when_finished_witness:
  "finished (node \<lparr>node = \<lparr>waiting_service = False, finished = True, round = 5\<rparr>,
                    inflight = []\<rparr>) \<and>
   fire \<lparr>node = \<lparr>waiting_service = False, finished = True, round = 5\<rparr>, inflight = []\<rparr>
        (ParamEvent \<lparr>msg_p = 23, msg_a = 5\<rparr> 7 True)
     = Some (\<lparr>node = \<lparr>waiting_service = False, finished = True, round = 5\<rparr>,
              inflight = []\<rparr>, [])"
  using params_ignored_when_finished
    [of "\<lparr>node = \<lparr>waiting_service = False, finished = True, round = 5\<rparr>, inflight = []\<rparr>"
        "\<lparr>msg_p = 23, msg_a = 5\<rparr>" 7 True]
  by simp

text \<open>
  Claim C6. Across every step of the system, \<open>round\<close> does not decrease; it grows by
  exactly 1 in a step that delivers a successful response, and stays the same in every
  other step (a parameter event, a failed response).
\<close>

theorem round_changes_only_on_success:
  assumes "fire S ev = Some (S', out)"
  shows "round (node S) \<le>s round (node S') \<and>
         sint (round (node S')) = sint (round (node S)) +
           (case ev of
              ParamEvent msg n available \<Rightarrow> 0
            | ResponseEvent i Throws \<Rightarrow> 0
            | ResponseEvent i (Ready y1 y2) \<Rightarrow> 1)"
proof (cases ev)
  case (ParamEvent msg n available)
  with assms obtain c' where "on_params (node S) msg n available = Some (c', out)" "node S' = c'"
    by (auto simp: fire_def split: option.splits)
  then have "round (node S') = round (node S)"
    using on_params_cases by fastforce
  with ParamEvent show ?thesis
    by (simp add: word_sle_eq)
next
  case (ResponseEvent i fut)
  with assms obtain c' p n where
    rc: "response_callback (node S) p n fut = Some (c', out)" and c': "node S' = c'"
    by (auto simp: fire_def split: option.splits if_splits prod.splits)
  from response_callback_cases [OF rc] show ?thesis
  proof (elim disjE conjE exE)
    assume "fut = Throws" "c' = (node S)\<lparr>waiting_service := False\<rparr>"
    with ResponseEvent c' show ?thesis
      by (simp add: word_sle_eq)
  next
    fix y1 y2 x
    assume fut: "fut = Ready y1 y2" and nm: "round (node S) \<noteq> INT_MAX"
      and c'': "c' = (if kTotalRounds \<le>s round (node S) + 1
          then (node S)\<lparr>round := round (node S) + 1, waiting_service := False, finished := True\<rparr>
          else (node S)\<lparr>round := round (node S) + 1, waiting_service := False\<rparr>)"
    from c' c'' have "round (node S') = round (node S) + 1"
      by simp
    with sint_succ [OF nm] ResponseEvent fut show ?thesis
      by (simp add: word_sle_eq)
  qed
qed

theorem round_changes_only_on_success_witness:
  "fire \<lparr>node = \<lparr>waiting_service = True, finished = False, round = 0\<rparr>, inflight = [(23, 6)]\<rparr>
        (ResponseEvent 0 (Ready 10 21))
   = Some (\<lparr>node = \<lparr>waiting_service = False, finished = False, round = 1\<rparr>, inflight = []\<rparr>,
           [Publish 15]) \<and>
   (0 :: i32) \<le>s 1 \<and> sint (1 :: i32) = sint (0 :: i32) + 1"
  using round_changes_only_on_success [OF first_response]
  by (simp add: first_response)

text \<open>
  Claim C8. A failed response clears \<open>waiting_service\<close> and changes nothing else (so
  \<open>round\<close> is not incremented and \<open>finished\<close> is not set) and publishes nothing. When
  rounds remain, the next parameter event with a valid \<open>p\<close> and a reachable service
  sends a request for the same round, whose public key and captured secret come from
  the newly drawn \<open>n'\<close>, not from the \<open>n\<close> of the failed request.
\<close>

theorem failed_response_retried:
  "response_callback c p n Throws = Some (c\<lparr>waiting_service := False\<rparr>, []) \<and>
   (\<not> finished c \<and> \<not> kTotalRounds \<le>s round c \<and> 3 \<le> msg_p msg \<longrightarrow>
      (\<exists>b'. mod_pow (msg_a msg) n' (msg_p msg) = Some b' \<and>
         on_params (c\<lparr>waiting_service := False\<rparr>) msg n' True
           = Some (c\<lparr>waiting_service := True\<rparr>, [SendRequest b' (msg_p msg) n'])))"
proof (intro conjI impI)
  show "response_callback c p n Throws = Some (c\<lparr>waiting_service := False\<rparr>, [])"
    by (simp add: response_callback_def)
next
  assume a: "\<not> finished c \<and> \<not> kTotalRounds \<le>s round c \<and> 3 \<le> msg_p msg"
  then have "msg_p msg \<noteq> 0"
    by auto
  from mod_pow_correct [OF this, of "msg_a msg" n'] obtain b' where
    b': "mod_pow (msg_a msg) n' (msg_p msg) = Some b'"
    by blast
  with a have "on_params (c\<lparr>waiting_service := False\<rparr>) msg n' True
      = Some (c\<lparr>waiting_service := True\<rparr>, [SendRequest b' (msg_p msg) n'])"
    by (simp add: on_params_def Let_def not_less)
  with b' show "\<exists>b'. mod_pow (msg_a msg) n' (msg_p msg) = Some b' \<and>
      on_params (c\<lparr>waiting_service := False\<rparr>) msg n' True
        = Some (c\<lparr>waiting_service := True\<rparr>, [SendRequest b' (msg_p msg) n'])"
    by blast
qed

theorem failed_response_retried_witness:
  "response_callback \<lparr>waiting_service = True, finished = False, round = 0\<rparr> 23 6 Throws
     = Some (\<lparr>waiting_service = False, finished = False, round = 0\<rparr>, []) \<and>
   \<not> finished \<lparr>waiting_service = True, finished = False, round = 0\<rparr> \<and>
   \<not> kTotalRounds \<le>s round \<lparr>waiting_service = True, finished = False, round = 0\<rparr> \<and>
   (3 :: u64) \<le> msg_p \<lparr>msg_p = 23, msg_a = 5\<rparr> \<and>
   on_params \<lparr>waiting_service = False, finished = False, round = 0\<rparr>
       \<lparr>msg_p = 23, msg_a = 5\<rparr> 9 True
     = Some (\<lparr>waiting_service = True, finished = False, round = 0\<rparr>, [SendRequest 11 23 9])"
  using failed_response_retried
    [of "\<lparr>waiting_service = True, finished = False, round = 0\<rparr>" 23 6
        "\<lparr>msg_p = 23, msg_a = 5\<rparr>" 9]
  by (simp add: eval_defs)

text \<open>
  Claim C9. A parameter event processed in the idle state (not finished, not waiting,
  rounds remaining) that reaches the availability probe (\<open>p \<ge> 3\<close>) and finds the
  service unavailable changes nothing: \<open>round\<close>, \<open>waiting_service\<close> and \<open>finished\<close> are
  unchanged, no request is issued and nothing is published.
\<close>

theorem probe_failure_changes_nothing:
  "\<not> finished (node S) \<Longrightarrow> \<not> waiting_service (node S) \<Longrightarrow>
   \<not> kTotalRounds \<le>s round (node S) \<Longrightarrow> 3 \<le> msg_p msg \<Longrightarrow>
     on_params (node S) msg n False = Some (node S, []) \<and>
     fire S (ParamEvent msg n False) = Some (S, [])"
proof -
  assume a: "\<not> finished (node S)" "\<not> waiting_service (node S)"
    "\<not> kTotalRounds \<le>s round (node S)" "3 \<le> msg_p msg"
  then have "msg_p msg \<noteq> 0"
    by auto
  from mod_pow_correct [OF this, of "msg_a msg" n] obtain b where
    "mod_pow (msg_a msg) n (msg_p msg) = Some b"
    by blast
  with a have "on_params (node S) msg n False = Some (node S, [])"
    by (simp add: on_params_def Let_def not_less)
  then show ?thesis
    by (simp add: fire_def)
qed

theorem probe_failure_changes_nothing_witness:
  "\<not> finished (node initial) \<and> \<not> waiting_service (node initial) \<and>
   \<not> kTotalRounds \<le>s round (node initial) \<and> (3 :: u64) \<le> msg_p \<lparr>msg_p = 23, msg_a = 5\<rparr> \<and>
   fire initial (ParamEvent \<lparr>msg_p = 23, msg_a = 5\<rparr> 6 False) = Some (initial, [])"
  using probe_failure_changes_nothing [of initial "\<lparr>msg_p = 23, msg_a = 5\<rparr>" 6]
  by (simp add: initial_def kTotalRounds_def word_sle_eq)

text \<open>
  Claim C7. In every state reachable from the initial state, \<open>finished\<close> implies that
  \<open>round\<close> equals \<open>kTotalRounds\<close>, which is 5, and nothing happens any more: whatever
  events follow, the state stays the same and there are no effects (no request, no
  published result).
\<close>

theorem finished_means_all_rounds_done:
  assumes "run initial evs = Some (S, outs)" and "finished (node S)"
  shows "round (node S) = kTotalRounds \<and>
         (\<forall>evs' S' outs'. run S evs' = Some (S', outs') \<longrightarrow> S' = S \<and> outs' = [])"
proof -
  have inv: "consistent S"
    using consistent_initial assms(1) by (rule consistent_run)
  with assms(2) have "round (node S) = kTotalRounds"
    by (simp add: consistent_def)
  moreover have "S' = S \<and> outs' = []" if "run S evs' = Some (S', outs')" for evs' S' outs'
    using inv assms(2) that by (rule finished_run)
  ultimately show ?thesis
    by blast
qed

theorem finished_means_all_rounds_done_witness:
  "run initial five_rounds = Some (done_state,
     [SendRequest 8 23 6, Publish 15, SendRequest 8 23 6, Publish 15, SendRequest 8 23 6,
      SendRequest 11 23 9, Publish 16, SendRequest 8 23 6, Publish 15, SendRequest 8 23 6, Publish 15]) \<and>
   finished (node done_state) \<and> round (node done_state) = kTotalRounds \<and>
   run done_state [ParamEvent \<lparr>msg_p = 23, msg_a = 5\<rparr> 6 True] = Some (done_state, [])"
proof -
  have f: "finished (node done_state)"
    by (simp add: done_state_def)
  have r: "run done_state [ParamEvent \<lparr>msg_p = 23, msg_a = 5\<rparr> 6 True] = Some (done_state, [])"
    by (simp add: done_state_def eval_defs)
  from finished_means_all_rounds_done [OF run_five_rounds f] run_five_rounds f r
  show ?thesis by simp
qed

text \<open>
  Claim C10. In every state reachable from the initial state, \<open>waiting_service\<close> and
  \<open>finished\<close> are not both set.
\<close>

theorem never_waiting_and_finished:
  assumes "run initial evs = Some (S, outs)"
  shows "\<not> (waiting_service (node S) \<and> finished (node S))"
proof -
  have "consistent S"
    using consistent_initial assms by (rule consistent_run)
  then show ?thesis
    by (auto simp: consistent_def split: if_splits)
qed

theorem never_waiting_and_finished_witness:
  "run initial [ParamEvent \<lparr>msg_p = 23, msg_a = 5\<rparr> 6 True]
     = Some (\<lparr>node = \<lparr>waiting_service = True, finished = False, round = 0\<rparr>,
              inflight = [(23, 6)]\<rparr>, [SendRequest 8 23 6]) \<and>
   \<not> (waiting_service \<lparr>waiting_service = True, finished = False, round = 0\<rparr> \<and>
      finished \<lparr>waiting_service = True, finished = False, round = 0\<rparr>)"
  using never_waiting_and_finished [OF run_first_request] run_first_request
  by simp

end
